theory Spec2Isabelle
  imports Complex_Main "HOL-Library.Word"
begin

section \<open>Data model (src/types.ts)\<close>

text \<open>
  A JavaScript string is a sequence of UTF-16 code units, and \<open>.length\<close> counts
  code units. A JavaScript \<open>number\<close> is a double; the model holds its value as a real,
  and NaN and the infinities are left out. Where a product goes through \<open>Math.ceil\<close>
  (the frame count of a scene) the product is rounded to a double as the code rounds it,
  since the rounding decides the count. Frame counts are integers; the code keeps them
  in doubles, which are exact below 2^53. The subtitle timing has no ceiling and is
  kept over the reals.
\<close>

type_synonym code_unit = "16 word"
type_synonym jsstring = "code_unit list"

record DataOverlay =
  title :: jsstring
  subhead :: "jsstring option"
  headers :: "jsstring list"
  row :: "jsstring list"

record Scene =
  dialogue :: jsstring
  visualDescription :: jsstring
  keyword :: jsstring
  durationInSeconds :: real
  backgroundColor :: jsstring
  audioUrl :: "jsstring option"
  phoneticDialogue :: "jsstring option"
  dataOverlay :: DataOverlay

record ReferenceMaterial =
  rm_title :: jsstring
  rm_subhead :: jsstring
  rm_headers :: "jsstring list"
  rm_rows :: "jsstring list list"

record VideoScript =
  topic :: jsstring
  scenes :: "Scene list"
  totalDurationInSeconds :: real
  referenceMaterial :: ReferenceMaterial

definition FPS :: int where
  "FPS = 30"

definition TRANSITION_DURATION_IN_FRAMES :: int where
  "TRANSITION_DURATION_IN_FRAMES = 15"

section \<open>The double product\<close>

text \<open>
  \<open>toDouble x\<close> is the double nearest to \<open>x\<close>: the significand has 53 bits, a tie goes
  to the even significand, the exponent is at least -1022 (below that the doubles are
  2^-1074 apart), and overflow is left out. A double is its own nearest double, and a
  value written in decimal, such as 8.3, is read as its nearest double.
\<close>

definition roundHalfEven :: "real \<Rightarrow> int" where
  "roundHalfEven n =
     (let f = \<lfloor>n\<rfloor>; r = n - of_int f
      in if r < 1 / 2 then f else if 1 / 2 < r then f + 1 else if even f then f else f + 1)"

definition pow2 :: "int \<Rightarrow> real" where
  "pow2 e = (if 0 \<le> e then 2 ^ nat e else 1 / 2 ^ nat (- e))"

text \<open>The exponent \<open>e\<close> with \<open>2^e \<le> x < 2^(e+1)\<close>, for \<open>x \<ge> 1\<close> and for \<open>0 < x < 1\<close>.\<close>

function binaryExponentUp :: "real \<Rightarrow> int" where
  "binaryExponentUp x = (if 2 \<le> x then binaryExponentUp (x / 2) + 1 else 0)"
  by pat_completeness auto
termination
proof (relation "measure (\<lambda>x. nat \<lfloor>x\<rfloor>)")
  show "wf (measure (\<lambda>x. nat \<lfloor>x\<rfloor>))" by simp
next
  fix x :: real
  assume "2 \<le> x"
  then have "x / 2 \<le> x - 1" by simp
  then have "\<lfloor>x / 2\<rfloor> \<le> \<lfloor>x - 1\<rfloor>" by (rule floor_mono)
  then have "\<lfloor>x / 2\<rfloor> < \<lfloor>x\<rfloor>" by simp
  moreover from \<open>2 \<le> x\<close> have "0 < \<lfloor>x\<rfloor>" by simp
  ultimately show "(x / 2, x) \<in> measure (\<lambda>x. nat \<lfloor>x\<rfloor>)" by simp
qed

function binaryExponentDown :: "nat \<Rightarrow> real \<Rightarrow> int" where
  "binaryExponentDown k x =
     (if x < 1 \<and> k < 1022 then binaryExponentDown (k + 1) (2 * x) else - int k)"
  by pat_completeness auto
termination
  by (relation "measure (\<lambda>(k, x). 1022 - k)") auto

declare binaryExponentUp.simps [simp del]
declare binaryExponentDown.simps [simp del]

definition binaryExponent :: "real \<Rightarrow> int" where
  "binaryExponent x =
     (if 1 \<le> \<bar>x\<bar> then binaryExponentUp \<bar>x\<bar> else binaryExponentDown 0 \<bar>x\<bar>)"

definition toDouble :: "real \<Rightarrow> real" where
  "toDouble x =
     (if x = 0 then 0
      else (let ulp = pow2 (binaryExponent x - 52)
            in of_int (roundHalfEven (x / ulp)) * ulp))"

text \<open>The operator \<open>*\<close> on two numbers: the exact product, rounded to a double.\<close>

definition jsTimes :: "real \<Rightarrow> real \<Rightarrow> real" where
  "jsTimes x y = toDouble (toDouble x * toDouble y)"

section \<open>Scene timeline (MyVideoComposition, timeline useMemo)\<close>

record Placement =
  startFrame :: int
  durationInFrames :: int

text \<open>
  The body of \<open>scenes.map\<close> with the mutable cursor \<open>currentFrame\<close> passed along.
  The frame rate and the overlap are arguments here; the component fixes them to
  \<open>FPS\<close> and \<open>TRANSITION_DURATION_IN_FRAMES\<close>.
\<close>

fun timelineFrom :: "int \<Rightarrow> int \<Rightarrow> int \<Rightarrow> Scene list \<Rightarrow> Placement list" where
  "timelineFrom fps overlap currentFrame [] = []"
| "timelineFrom fps overlap currentFrame (scene # rest) =
     (let d = \<lceil>jsTimes (durationInSeconds scene) (of_int fps)\<rceil>;
          nextFrame = currentFrame + max 0 (d - overlap)
      in \<lparr>startFrame = currentFrame, durationInFrames = d\<rparr>
           # timelineFrom fps overlap nextFrame rest)"

definition timeline :: "Scene list \<Rightarrow> Placement list" where
  "timeline ss = timelineFrom FPS TRANSITION_DURATION_IN_FRAMES 0 ss"

section \<open>Composition length (App.tsx, getDurationInFrames)\<close>

definition getDurationInFrames :: "VideoScript option \<Rightarrow> int" where
  "getDurationInFrames videoData =
     (case videoData of
        None \<Rightarrow> 0
      | Some v \<Rightarrow>
          (let totalSceneFrames =
                 foldl (\<lambda>acc scene. acc + \<lceil>jsTimes (durationInSeconds scene) (of_int FPS)\<rceil>) 0 (scenes v);
               overlapFrames = max 0 (int (length (scenes v)) - 1) * TRANSITION_DURATION_IN_FRAMES
           in totalSceneFrames - overlapFrames))"

section \<open>Subtitle splitting (splitDialogueIntoChunks)\<close>

text \<open>
  \<open>\s\<close> in a regular expression and \<open>String.prototype.trim\<close> use the same set:
  the WhiteSpace and LineTerminator code points of ECMAScript.
\<close>

definition isWhiteSpace :: "code_unit \<Rightarrow> bool" where
  "isWhiteSpace c =
     (c = 0x0009 \<or> c = 0x000A \<or> c = 0x000B \<or> c = 0x000C \<or> c = 0x000D \<or> c = 0x0020
      \<or> c = 0x00A0 \<or> c = 0x1680 \<or> (0x2000 \<le> c \<and> c \<le> 0x200A)
      \<or> c = 0x2028 \<or> c = 0x2029 \<or> c = 0x202F \<or> c = 0x205F \<or> c = 0x3000 \<or> c = 0xFEFF)"

definition trim :: "jsstring \<Rightarrow> jsstring" where
  "trim s = rev (dropWhile isWhiteSpace (rev (dropWhile isWhiteSpace s)))"

text \<open>The two speaker names, U+3058 U+3047 U+3093 U+3070 and U+3042 U+3044 U+3070.\<close>

definition jenba :: jsstring where
  "jenba = [0x3058, 0x3047, 0x3093, 0x3070]"

definition aiba :: jsstring where
  "aiba = [0x3042, 0x3044, 0x3070]"

text \<open>The class \<open>[:\<dots>]\<close>: the ASCII colon and the full-width colon U+FF1A.\<close>

definition isColon :: "code_unit \<Rightarrow> bool" where
  "isColon c = (c = 0x003A \<or> c = 0xFF1A)"

fun matchLiteral :: "jsstring \<Rightarrow> jsstring \<Rightarrow> jsstring option" where
  "matchLiteral [] t = Some t"
| "matchLiteral (l # ls) [] = None"
| "matchLiteral (l # ls) (c # cs) = (if l = c then matchLiteral ls cs else None)"

text \<open>One alternative of the pattern at the start of the text: the name, then a colon.\<close>

definition matchTagColon :: "jsstring \<Rightarrow> jsstring \<Rightarrow> jsstring option" where
  "matchTagColon tag t =
     (case matchLiteral tag t of
        Some (c # rest) \<Rightarrow> if isColon c then Some rest else None
      | _ \<Rightarrow> None)"

text \<open>\<open>text.replace(/^(A|B)[:\<dots>]/, '')\<close>: the first alternative that matches is cut off.\<close>

definition removeSpeakerPrefix :: "jsstring \<Rightarrow> jsstring" where
  "removeSpeakerPrefix t =
     (case matchTagColon jenba t of
        Some rest \<Rightarrow> rest
      | None \<Rightarrow> (case matchTagColon aiba t of Some rest \<Rightarrow> rest | None \<Rightarrow> t))"

text \<open>Sentence ends: U+3002, U+FF01, U+FF1F, \<open>!\<close>, \<open>?\<close>. Clause separators: U+3001 and the comma.\<close>

definition isSentenceEnd :: "code_unit \<Rightarrow> bool" where
  "isSentenceEnd c = (c = 0x3002 \<or> c = 0xFF01 \<or> c = 0xFF1F \<or> c = 0x0021 \<or> c = 0x003F)"

definition isClauseSep :: "code_unit \<Rightarrow> bool" where
  "isClauseSep c = (c = 0x3001 \<or> c = 0x002C)"

text \<open>
  \<open>s.split(/(?<=[P])\s*/)\<close> for a class \<open>P\<close> without whitespace. The pattern matches
  at a position whose previous code unit is in \<open>P\<close> and takes all the whitespace that
  follows. \<open>acc\<close> is the piece since the last cut, \<open>prev\<close> its last code unit. At the
  position of a cut the piece is emitted and the whitespace skipped; the position right
  after a cut never cuts again (the match there is empty and at the start of the piece).
  When the input ends the last piece is emitted, also when it is empty.
\<close>

function splitLoop :: "(code_unit \<Rightarrow> bool) \<Rightarrow> jsstring \<Rightarrow> code_unit \<Rightarrow> jsstring \<Rightarrow> jsstring list" where
  "splitLoop P acc prev [] = [acc]"
| "splitLoop P acc prev (c # cs) =
     (if P prev
      then acc # (case dropWhile isWhiteSpace (c # cs) of
                    [] \<Rightarrow> [[]]
                  | d # ds \<Rightarrow> splitLoop P [d] d ds)
      else splitLoop P (acc @ [c]) c cs)"
  by pat_completeness auto
termination
proof (relation "measure (\<lambda>(P, acc, prev, s). length s)")
  show "wf (measure (\<lambda>(P, acc, prev, s). length s))" by simp
next
  fix P :: "code_unit \<Rightarrow> bool" and acc :: jsstring and prev c d :: code_unit
    and cs ds :: jsstring
  assume "dropWhile isWhiteSpace (c # cs) = d # ds"
  then have "length (d # ds) \<le> length (c # cs)"
    using length_dropWhile_le [of isWhiteSpace "c # cs"] by simp
  then show "((P, [d], d, ds), (P, acc, prev, c # cs)) \<in> measure (\<lambda>(P, acc, prev, s). length s)"
    by simp
next
  fix P :: "code_unit \<Rightarrow> bool" and acc :: jsstring and prev c :: code_unit and cs :: jsstring
  show "((P, acc @ [c], c, cs), (P, acc, prev, c # cs)) \<in> measure (\<lambda>(P, acc, prev, s). length s)"
    by simp
qed

definition splitAfter :: "(code_unit \<Rightarrow> bool) \<Rightarrow> jsstring \<Rightarrow> jsstring list" where
  "splitAfter P s = (case s of [] \<Rightarrow> [[]] | c # cs \<Rightarrow> splitLoop P [c] c cs)"

text \<open>The body of \<open>subParts.forEach\<close>; the state is \<open>chunks\<close> and \<open>currentChunk\<close>.\<close>

definition pushPart :: "jsstring list \<times> jsstring \<Rightarrow> jsstring \<Rightarrow> jsstring list \<times> jsstring" where
  "pushPart st part =
     (case st of (chunks, currentChunk) \<Rightarrow>
        if length (currentChunk @ part) > 30
        then ((if currentChunk \<noteq> [] then chunks @ [currentChunk] else chunks), part)
        else (chunks, currentChunk @ part))"

text \<open>The body of \<open>sentences.forEach\<close>; the state is \<open>chunks\<close>.\<close>

definition pushSentence :: "jsstring list \<Rightarrow> jsstring \<Rightarrow> jsstring list" where
  "pushSentence chunks sentence =
     (if length sentence < 25 then chunks @ [sentence]
      else (case foldl pushPart (chunks, []) (splitAfter isClauseSep sentence) of
              (chunks', currentChunk) \<Rightarrow>
                if currentChunk \<noteq> [] then chunks' @ [currentChunk] else chunks'))"

definition cleanText :: "jsstring \<Rightarrow> jsstring" where
  "cleanText t = trim (removeSpeakerPrefix t)"

definition sentences :: "jsstring \<Rightarrow> jsstring list" where
  "sentences t = filter (\<lambda>s. length s > 0) (splitAfter isSentenceEnd (cleanText t))"

definition splitDialogueIntoChunks :: "jsstring \<Rightarrow> jsstring list" where
  "splitDialogueIntoChunks t = foldl pushSentence [] (sentences t)"

section \<open>Subtitle timing (SceneComponent, chunks useMemo)\<close>

text \<open>The fields \<open>text\<close>, \<open>startFrame\<close> and \<open>endFrame\<close> of a chunk object.\<close>

record SubtitleChunk =
  chunkText :: jsstring
  chunkStartFrame :: real
  chunkEndFrame :: real

text \<open>The body of \<open>textChunks.map\<close> with the mutable \<open>currentStart\<close> passed along.\<close>

fun layoutChunks :: "nat \<Rightarrow> real \<Rightarrow> real \<Rightarrow> jsstring list \<Rightarrow> SubtitleChunk list" where
  "layoutChunks totalChars totalDurationFrames currentStart [] = []"
| "layoutChunks totalChars totalDurationFrames currentStart (t # rest) =
     (let weight = max (length t) 5;
          duration = (real weight / real (max totalChars 1)) * totalDurationFrames
      in \<lparr>chunkText = t, chunkStartFrame = currentStart, chunkEndFrame = currentStart + duration\<rparr>
           # layoutChunks totalChars totalDurationFrames (currentStart + duration) rest)"

definition chunks :: "Scene \<Rightarrow> real \<Rightarrow> SubtitleChunk list" where
  "chunks scene fps =
     (let textChunks = splitDialogueIntoChunks (dialogue scene);
          totalChars = length (concat textChunks);
          totalDurationFrames = (durationInSeconds scene * fps) - 15
      in layoutChunks totalChars totalDurationFrames 0 textChunks)"

section \<open>Visual and audio tracks (MyVideoComposition)\<close>

datatype SequenceChild = SceneComponent Scene nat "jsstring option" | Audio jsstring

record SequenceEl =
  seqFrom :: int
  seqDurationInFrames :: int
  seqChild :: SequenceChild

text \<open>
  \<open>timeline[index]\<close>: outside the array it is \<open>undefined\<close> and the destructuring throws a
  TypeError, here \<open>None\<close>.
\<close>

definition placementAt :: "Placement list \<Rightarrow> nat \<Rightarrow> Placement option" where
  "placementAt ps index = (if index < length ps then Some (ps ! index) else None)"

text \<open>A track is \<open>None\<close> when one of its elements throws.\<close>

fun collect :: "'a option list \<Rightarrow> 'a list option" where
  "collect [] = Some []"
| "collect (x # xs) =
     (case x of None \<Rightarrow> None
      | Some y \<Rightarrow> (case collect xs of None \<Rightarrow> None | Some ys \<Rightarrow> Some (y # ys)))"

definition visualTrack :: "Scene list \<Rightarrow> jsstring option \<Rightarrow> SequenceEl list option" where
  "visualTrack ss introBgUrl =
     collect (map (\<lambda>(index, scene).
                (case placementAt (timeline ss) index of
                   None \<Rightarrow> None
                 | Some p \<Rightarrow>
                     Some \<lparr>seqFrom = startFrame p, seqDurationInFrames = durationInFrames p,
                           seqChild = SceneComponent scene index introBgUrl\<rparr>))
              (zip [0 ..< length ss] ss))"

text \<open>
  The audio element of one scene at its placement; \<open>!scene.audioUrl\<close> holds for a
  missing URL and for the empty string, and the callback returns \<open>null\<close> then.
\<close>

definition audioSequence :: "Placement \<Rightarrow> Scene \<Rightarrow> SequenceEl option" where
  "audioSequence p scene =
     (case audioUrl scene of
        None \<Rightarrow> None
      | Some url \<Rightarrow>
          if url = [] then None
          else Some \<lparr>seqFrom = startFrame p, seqDurationInFrames = durationInFrames p,
                     seqChild = Audio url\<rparr>)"

definition audioTrack :: "Scene list \<Rightarrow> SequenceEl option list option" where
  "audioTrack ss =
     collect (map (\<lambda>(index, scene).
                (case placementAt (timeline ss) index of
                   None \<Rightarrow> None
                 | Some p \<Rightarrow> Some (audioSequence p scene)))
              (zip [0 ..< length ss] ss))"

section \<open>Reconstruction of the dialogue, as the specification words it\<close>

definition isBoundary :: "code_unit \<Rightarrow> bool" where
  "isBoundary c = (isSentenceEnd c \<or> isClauseSep c)"

text \<open>
  \<open>erasedAfter z s t\<close>: \<open>t\<close> is \<open>s\<close> with some whitespace deleted, every deleted code
  unit lying in a run of whitespace that directly follows a sentence end or a clause
  separator. \<open>z\<close> says whether the current position is inside such a run.
\<close>

fun erasedAfter :: "bool \<Rightarrow> jsstring \<Rightarrow> jsstring \<Rightarrow> bool" where
  "erasedAfter z [] t = (t = [])"
| "erasedAfter z (c # s) t =
     ((case t of
         [] \<Rightarrow> False
       | d # t' \<Rightarrow> c = d \<and> erasedAfter (isBoundary c \<or> (z \<and> isWhiteSpace c)) s t')
      \<or> (z \<and> isWhiteSpace c \<and> erasedAfter z s t))"

section \<open>Example inputs\<close>

text \<open>
  The dialogue of the specification's example (a speaker name with an ASCII colon and
  two sentences of 6 and 11 code units), a sentence of 3 code units and one of 6.
\<close>

definition greeting :: jsstring where
  "greeting = [0x3058, 0x3047, 0x3093, 0x3070, 0x003A,
               0x3053, 0x3093, 0x306B, 0x3061, 0x306F, 0x3002,
               0x4ECA, 0x65E5, 0x306F, 0x3044, 0x3044, 0x5929, 0x6C17, 0x3067, 0x3059, 0x306D,
               0x3002]"

definition hai :: jsstring where
  "hai = [0x306F, 0x3044, 0x3002]"

definition konnichiwa :: jsstring where
  "konnichiwa = [0x3053, 0x3093, 0x306B, 0x3061, 0x306F, 0x3002]"

text \<open>
  A dialogue with whitespace after the colon, between its two sentences and at its end;
  a dialogue that is a speaker name, a full-width colon and whitespace; a sentence of 38
  code units with two commas, each followed by a space.
\<close>

definition spaced :: jsstring where
  "spaced = [0x3058, 0x3047, 0x3093, 0x3070, 0x003A, 0x0020,
             0x3053, 0x3093, 0x306B, 0x3061, 0x306F, 0x3002, 0x0020, 0x3000,
             0x306F, 0x3044, 0x3002, 0x0020]"

definition nameOnly :: jsstring where
  "nameOnly = [0x3042, 0x3044, 0x3070, 0xFF1A, 0x0020, 0x3000]"

text \<open>A space, a speaker name and an ASCII colon.\<close>

definition leadingSpaceName :: jsstring where
  "leadingSpaceName = [0x0020, 0x3058, 0x3047, 0x3093, 0x3070, 0x003A]"

definition longSentence :: jsstring where
  "longSentence =
     [0x61, 0x61, 0x61, 0x61, 0x61, 0x61, 0x61, 0x61, 0x61, 0x61, 0x61, 0x61, 0x61, 0x61, 0x2C, 0x20,
      0x62, 0x62, 0x62, 0x62, 0x62, 0x62, 0x62, 0x62, 0x62, 0x62, 0x62, 0x62, 0x62, 0x62, 0x2C, 0x20,
      0x63, 0x63, 0x63, 0x63, 0x63, 0x3002]"

definition emptyOverlay :: DataOverlay where
  "emptyOverlay = \<lparr>title = [], subhead = None, headers = [], row = []\<rparr>"

definition sceneOf :: "jsstring \<Rightarrow> real \<Rightarrow> jsstring option \<Rightarrow> Scene" where
  "sceneOf d secs url =
     \<lparr>dialogue = d, visualDescription = [], keyword = [], durationInSeconds = secs,
      backgroundColor = [], audioUrl = url, phoneticDialogue = None,
      dataOverlay = emptyOverlay\<rparr>"

definition scriptOf :: "Scene list \<Rightarrow> VideoScript" where
  "scriptOf ss =
     \<lparr>topic = [], scenes = ss, totalDurationInSeconds = 0,
      referenceMaterial = \<lparr>rm_title = [], rm_subhead = [], rm_headers = [], rm_rows = []\<rparr>\<rparr>"

section \<open>Properties of the timeline\<close>

lemmas double_eval =
  jsTimes_def toDouble_def binaryExponent_def binaryExponentUp.simps binaryExponentDown.simps
  pow2_def roundHalfEven_def Let_def

text \<open>
  The doubles nearest to 0.1 and to 8.3, two ties above 2^53, and two values that are
  doubles already.
\<close>

lemma toDouble_examples:
  "toDouble (1 / 10) = 3602879701896397 / 2 ^ 55"
  "toDouble (83 / 10) = 4672484613396890 / 2 ^ 49"
  "toDouble (2 ^ 53 + 1) = 2 ^ 53" "toDouble (2 ^ 53 + 3) = 2 ^ 53 + 4"
  "toDouble 30 = 30" "toDouble (3602879701896397 / 2 ^ 55) = 3602879701896397 / 2 ^ 55"
  by (simp_all add: double_eval)

text \<open>
  Products at 30 frames per second. 5, 3, 4 and 3.5 s give exact products; 0.4 s and
  0.1 s give products that round to 12 and 3; 8.3 s is read as a double a little above
  8.3 and its product rounds to a double a little above 249.
\<close>

lemma jsTimes_examples:
  "jsTimes 5 30 = 150" "jsTimes 3 30 = 90" "jsTimes 4 30 = 120" "jsTimes (7 / 2) 30 = 105"
  "jsTimes (2 / 5) 30 = 12" "jsTimes (1 / 10) 30 = 3"
  "jsTimes (83 / 10) 30 = 8760908650119169 / 2 ^ 45"
  "jsTimes (3602879701896397 / 36028797018963968) 30 = 3"
  by (simp_all add: double_eval)

lemma length_timelineFrom: "length (timelineFrom fps ov c ss) = length ss"
  by (induction ss arbitrary: c) (simp_all add: Let_def)

lemma timelineFrom_duration:
  "i < length ss \<Longrightarrow>
     durationInFrames (timelineFrom fps ov c ss ! i) = \<lceil>jsTimes (durationInSeconds (ss ! i)) (of_int fps)\<rceil>"
proof (induction ss arbitrary: c i)
  case Nil
  then show ?case by simp
next
  case (Cons s ss)
  then show ?case by (cases i) (simp_all add: Let_def)
qed

lemma timelineFrom_first: "ss \<noteq> [] \<Longrightarrow> startFrame (timelineFrom fps ov c ss ! 0) = c"
  by (cases ss) (simp_all add: Let_def)

lemma timelineFrom_step:
  "Suc i < length ss \<Longrightarrow>
     startFrame (timelineFrom fps ov c ss ! Suc i) =
       startFrame (timelineFrom fps ov c ss ! i)
         + max 0 (durationInFrames (timelineFrom fps ov c ss ! i) - ov)"
proof (induction ss arbitrary: c i)
  case Nil
  then show ?case by simp
next
  case (Cons s ss)
  show ?case
  proof (cases i)
    case 0
    with Cons.prems have "ss \<noteq> []" by auto
    with 0 show ?thesis by (simp add: Let_def timelineFrom_first)
  next
    case (Suc k)
    with Cons.prems have "Suc k < length ss" by simp
    from Cons.IH [OF this] Suc show ?thesis by (simp add: Let_def)
  qed
qed

lemma timelineFrom_mono:
  "i \<le> j \<Longrightarrow> j < length ss \<Longrightarrow>
     startFrame (timelineFrom fps ov c ss ! i) \<le> startFrame (timelineFrom fps ov c ss ! j)"
proof (induction j)
  case 0
  then show ?case by simp
next
  case (Suc j)
  show ?case
  proof (cases "i = Suc j")
    case True
    then show ?thesis by simp
  next
    case False
    with Suc.prems have "i \<le> j" "j < length ss" by simp_all
    then have "startFrame (timelineFrom fps ov c ss ! i)
                 \<le> startFrame (timelineFrom fps ov c ss ! j)"
      by (rule Suc.IH)
    also have "\<dots> \<le> startFrame (timelineFrom fps ov c ss ! Suc j)"
      using timelineFrom_step [OF Suc.prems(2), of fps ov c] by simp
    finally show ?thesis .
  qed
qed

text \<open>
  C1 as stated fails: the frame count is the ceiling of the product as the code computes
  it, in double arithmetic, and not of the exact product. A scene of 8.3 s at 30 frames
  per second lasts 250 frames and the next scene starts at frame 235, while the ceiling
  of 8.3 * 30 is 249. For the double nearest to 0.1 the code gives 3 frames, while the
  ceiling of the exact product of that double and 30 is 4.
\<close>

theorem timeline_exact_ceiling_counterexample:
  "durationInFrames (timelineFrom 30 15 0 [sceneOf [] (83 / 10) None, sceneOf [] 5 None] ! 0) = 250
   \<and> startFrame (timelineFrom 30 15 0 [sceneOf [] (83 / 10) None, sceneOf [] 5 None] ! 1) = 235
   \<and> \<lceil>durationInSeconds (sceneOf [] (83 / 10) None) * 30\<rceil> = 249
   \<and> durationInFrames
         (timelineFrom 30 15 0 [sceneOf [] (3602879701896397 / 2 ^ 55) None] ! 0) = 3
   \<and> \<lceil>durationInSeconds (sceneOf [] (3602879701896397 / 2 ^ 55) None) * 30\<rceil> = 4"
  by (simp add: sceneOf_def jsTimes_examples)

text \<open>
  C1, as amended. For every scene list, frame rate and overlap the timeline has one
  placement per scene, in order; placement i lasts the ceiling of the double product
  durationInSeconds i * fps; the first placement starts at frame 0; each next placement
  starts max(0, duration - overlap) frames after the previous one; so the start frames
  never decrease, whatever the durations are.
\<close>

theorem timeline_placements:
  "length (timelineFrom fps ov 0 ss) = length ss
   \<and> (\<forall>i < length ss. durationInFrames (timelineFrom fps ov 0 ss ! i)
                         = \<lceil>jsTimes (durationInSeconds (ss ! i)) (of_int fps)\<rceil>)
   \<and> (ss \<noteq> [] \<longrightarrow> startFrame (timelineFrom fps ov 0 ss ! 0) = 0)
   \<and> (\<forall>i. Suc i < length ss \<longrightarrow>
          startFrame (timelineFrom fps ov 0 ss ! Suc i)
            = startFrame (timelineFrom fps ov 0 ss ! i)
                + max 0 (durationInFrames (timelineFrom fps ov 0 ss ! i) - ov))
   \<and> (\<forall>i j. i \<le> j \<and> j < length ss \<longrightarrow>
          startFrame (timelineFrom fps ov 0 ss ! i) \<le> startFrame (timelineFrom fps ov 0 ss ! j))"
  by (simp add: length_timelineFrom timelineFrom_duration timelineFrom_first
      timelineFrom_step timelineFrom_mono)


theorem timeline_placements_witness:
  "length (timelineFrom 30 15 0
             [sceneOf [] (83 / 10) None, sceneOf [] (2 / 5) None, sceneOf [] 5 None]) = 3
   \<and> durationInFrames (timelineFrom 30 15 0
             [sceneOf [] (83 / 10) None, sceneOf [] (2 / 5) None, sceneOf [] 5 None] ! 0) = 250
   \<and> startFrame (timelineFrom 30 15 0
             [sceneOf [] (83 / 10) None, sceneOf [] (2 / 5) None, sceneOf [] 5 None] ! 0) = 0
   \<and> startFrame (timelineFrom 30 15 0
             [sceneOf [] (83 / 10) None, sceneOf [] (2 / 5) None, sceneOf [] 5 None] ! 1) = 235
   \<and> durationInFrames (timelineFrom 30 15 0
             [sceneOf [] (83 / 10) None, sceneOf [] (2 / 5) None, sceneOf [] 5 None] ! 1) = 12
   \<and> startFrame (timelineFrom 30 15 0
             [sceneOf [] (83 / 10) None, sceneOf [] (2 / 5) None, sceneOf [] 5 None] ! 2) = 235"
  using timeline_placements
    [of 30 15 "[sceneOf [] (83 / 10) None, sceneOf [] (2 / 5) None, sceneOf [] 5 None]"]
  by (simp add: sceneOf_def jsTimes_examples)

text \<open>
  C7. Scenes of 5, 3 and 4 seconds at 30 frames per second with an overlap of 15 frames
  last 150, 90 and 120 frames, are placed at frames 0, 135 and 210, and the composition
  is 330 frames long, which is where the last placement ends (210 + 120).
\<close>

theorem example_timeline:
  assumes "map durationInSeconds (scenes v) = [5, 3, 4]"
  shows "map durationInFrames (timeline (scenes v)) = [150, 90, 120]
    \<and> timeline (scenes v) = [\<lparr>startFrame = 0, durationInFrames = 150\<rparr>,
                              \<lparr>startFrame = 135, durationInFrames = 90\<rparr>,
                              \<lparr>startFrame = 210, durationInFrames = 120\<rparr>]
    \<and> getDurationInFrames (Some v) = 330
    \<and> getDurationInFrames (Some v)
         = startFrame (last (timeline (scenes v))) + durationInFrames (last (timeline (scenes v)))"
proof -
  from assms obtain a b c where ss: "scenes v = [a, b, c]"
    and d: "durationInSeconds a = 5" "durationInSeconds b = 3" "durationInSeconds c = 4"
    by (auto simp: map_eq_Cons_conv)
  have tl: "timeline (scenes v) = [\<lparr>startFrame = 0, durationInFrames = 150\<rparr>,
                              \<lparr>startFrame = 135, durationInFrames = 90\<rparr>,
                              \<lparr>startFrame = 210, durationInFrames = 120\<rparr>]"
    by (simp add: ss d timeline_def FPS_def TRANSITION_DURATION_IN_FRAMES_def jsTimes_examples)
  have len: "getDurationInFrames (Some v) = 330"
    by (simp add: getDurationInFrames_def ss d FPS_def TRANSITION_DURATION_IN_FRAMES_def
        jsTimes_examples)
  show ?thesis by (simp add: tl len)
qed

theorem example_timeline_witness:
  "map durationInSeconds (scenes (scriptOf [sceneOf [] 5 None, sceneOf [] 3 None, sceneOf [] 4 None]))
     = [5, 3, 4]
   \<and> getDurationInFrames (Some (scriptOf [sceneOf [] 5 None, sceneOf [] 3 None, sceneOf [] 4 None]))
     = 330"
  using example_timeline [of "scriptOf [sceneOf [] 5 None, sceneOf [] 3 None, sceneOf [] 4 None]"]
  by (simp add: scriptOf_def sceneOf_def)

lemma timelineFrom_durations_only:
  "map durationInSeconds ss = map durationInSeconds ss' \<Longrightarrow>
     timelineFrom fps ov c ss = timelineFrom fps ov c ss'"
proof (induction ss arbitrary: ss' c)
  case Nil
  then show ?case by simp
next
  case (Cons s ss)
  then obtain s' rest where "ss' = s' # rest" "durationInSeconds s = durationInSeconds s'"
    "map durationInSeconds ss = map durationInSeconds rest"
    by (cases ss') auto
  with Cons.IH [of rest] show ?case by (simp add: Let_def)
qed

text \<open>
  C10. The timeline depends on the scenes' durationInSeconds only: two scene lists of
  the same length that agree on every durationInSeconds have the same timeline,
  whatever their dialogue, audioUrl, keyword or other fields are.
\<close>

theorem timeline_depends_on_durations:
  assumes "length ss = length ss'"
    and "\<forall>i < length ss. durationInSeconds (ss ! i) = durationInSeconds (ss' ! i)"
  shows "timeline ss = timeline ss'"
proof -
  from assms have "map durationInSeconds ss = map durationInSeconds ss'"
    by (intro nth_equalityI) simp_all
  then show ?thesis unfolding timeline_def by (rule timelineFrom_durations_only)
qed

theorem timeline_depends_on_durations_witness:
  "timeline [sceneOf [0x3042] 5 None, sceneOf [] (7/2) (Some [0x61])]
     = timeline [sceneOf [0x3044, 0x3002] 5 (Some [0x62]), sceneOf [0x3093] (7/2) None]"
proof (rule timeline_depends_on_durations)
  show "length [sceneOf [0x3042] 5 None, sceneOf [] (7/2) (Some [0x61])]
          = length [sceneOf [0x3044, 0x3002] 5 (Some [0x62]), sceneOf [0x3093] (7/2) None]"
    by simp
  show "\<forall>i < length [sceneOf [0x3042] 5 None, sceneOf [] (7/2) (Some [0x61])].
          durationInSeconds ([sceneOf [0x3042] 5 None, sceneOf [] (7/2) (Some [0x61])] ! i)
            = durationInSeconds
                ([sceneOf [0x3044, 0x3002] 5 (Some [0x62]), sceneOf [0x3093] (7/2) None] ! i)"
    by (simp add: sceneOf_def less_Suc_eq all_conj_distrib numeral_2_eq_2)
qed

subsection \<open>When the composition length is the end of the last placement\<close>

lemma foldl_frames:
  "foldl (\<lambda>acc scene. acc + \<lceil>jsTimes (durationInSeconds scene) (of_int fps)\<rceil>) a ss
     = a + sum_list (map (\<lambda>scene. \<lceil>jsTimes (durationInSeconds scene) (of_int fps)\<rceil>) ss)"
  by (induction ss arbitrary: a) simp_all

lemma getDurationInFrames_sum:
  "scenes v \<noteq> [] \<Longrightarrow>
     getDurationInFrames (Some v)
       = sum_list (map (\<lambda>scene. \<lceil>jsTimes (durationInSeconds scene) (of_int FPS)\<rceil>) (scenes v))
           - (int (length (scenes v)) - 1) * TRANSITION_DURATION_IN_FRAMES"
  by (cases "scenes v") (simp_all add: getDurationInFrames_def Let_def foldl_frames)

lemma timelineFrom_nonempty: "ss \<noteq> [] \<Longrightarrow> timelineFrom fps ov c ss \<noteq> []"
  by (cases ss) (simp_all add: Let_def)

lemma timelineFrom_last_end:
  "ss \<noteq> [] \<Longrightarrow> \<forall>s \<in> set (butlast ss). ov \<le> \<lceil>jsTimes (durationInSeconds s) (of_int fps)\<rceil> \<Longrightarrow>
     startFrame (last (timelineFrom fps ov c ss)) + durationInFrames (last (timelineFrom fps ov c ss))
       = c + sum_list (map (\<lambda>scene. \<lceil>jsTimes (durationInSeconds scene) (of_int fps)\<rceil>) ss)
           - (int (length ss) - 1) * ov"
proof (induction ss arbitrary: c)
  case Nil
  then show ?case by simp
next
  case (Cons s ss)
  show ?case
  proof (cases "ss = []")
    case True
    then show ?thesis by (simp add: Let_def)
  next
    case False
    with Cons.prems(2) have long: "ov \<le> \<lceil>jsTimes (durationInSeconds s) (of_int fps)\<rceil>"
      and rest: "\<forall>s \<in> set (butlast ss). ov \<le> \<lceil>jsTimes (durationInSeconds s) (of_int fps)\<rceil>"
      by simp_all
    let ?c' = "c + max 0 (\<lceil>jsTimes (durationInSeconds s) (of_int fps)\<rceil> - ov)"
    from long have c': "?c' = c + \<lceil>jsTimes (durationInSeconds s) (of_int fps)\<rceil> - ov" by simp
    have "last (timelineFrom fps ov c (s # ss)) = last (timelineFrom fps ov ?c' ss)"
      using timelineFrom_nonempty [OF False, of fps ov ?c'] by (simp add: Let_def)
    with Cons.IH [OF False rest, of ?c'] show ?thesis
      by (simp only: c' list.map sum_list.Cons list.size) (simp add: algebra_simps)
  qed
qed

lemma composition_length_is_last_end:
  assumes "scenes v \<noteq> []"
    and "\<forall>s \<in> set (butlast (scenes v)).
           TRANSITION_DURATION_IN_FRAMES \<le> \<lceil>jsTimes (durationInSeconds s) (of_int FPS)\<rceil>"
  shows "getDurationInFrames (Some v)
           = startFrame (last (timeline (scenes v))) + durationInFrames (last (timeline (scenes v)))"
  using timelineFrom_last_end [OF assms, of 0] getDurationInFrames_sum [OF assms(1)]
  by (simp add: timeline_def)

lemma getDurationInFrames_rounds:
  "getDurationInFrames (Some (scriptOf [sceneOf [] (83 / 10) None])) = 250"
  by (simp add: getDurationInFrames_def scriptOf_def sceneOf_def FPS_def jsTimes_examples)

text \<open>
  C3. The claim asks for a composition length that is never negative and never less than
  the end of the last placement. getDurationInFrames has no clamp: with a scene shorter
  than the overlap before the last scene the composition is shorter than the end of the
  last placement. For scenes of 0.1 s and 5 s it is 138 frames long while the last
  placement is [0, 150); for three scenes of 0.1 s it is negative.
\<close>

theorem composition_length_short_scene:
  "getDurationInFrames (Some (scriptOf [sceneOf [] (1/10) None, sceneOf [] 5 None])) = 138
   \<and> timeline [sceneOf [] (1/10) None, sceneOf [] 5 None]
       = [\<lparr>startFrame = 0, durationInFrames = 3\<rparr>, \<lparr>startFrame = 0, durationInFrames = 150\<rparr>]
   \<and> getDurationInFrames
        (Some (scriptOf [sceneOf [] (1/10) None, sceneOf [] (1/10) None, sceneOf [] (1/10) None]))
       = - 21"
  by (simp add: getDurationInFrames_def timeline_def scriptOf_def sceneOf_def FPS_def
      TRANSITION_DURATION_IN_FRAMES_def jsTimes_examples)


section \<open>Properties of the tracks\<close>

lemma collect_map_Some: "collect (map Some xs) = Some xs"
  by (induction xs) simp_all

lemma length_timeline: "length (timeline ss) = length ss"
  by (simp add: timeline_def length_timelineFrom)

lemma index_in_zip: "(index, scene) \<in> set (zip [0 ..< length ss] ss) \<Longrightarrow> index < length ss"
  by (auto dest: set_zip_leftD)

lemma visualTrack_eq:
  "visualTrack ss bg =
     Some (map (\<lambda>(index, scene).
             \<lparr>seqFrom = startFrame (timeline ss ! index),
              seqDurationInFrames = durationInFrames (timeline ss ! index),
              seqChild = SceneComponent scene index bg\<rparr>)
           (zip [0 ..< length ss] ss))"
proof -
  have "map (\<lambda>(index, scene).
                (case placementAt (timeline ss) index of
                   None \<Rightarrow> None
                 | Some p \<Rightarrow>
                     Some \<lparr>seqFrom = startFrame p, seqDurationInFrames = durationInFrames p,
                           seqChild = SceneComponent scene index bg\<rparr>))
              (zip [0 ..< length ss] ss)
        = map Some (map (\<lambda>(index, scene).
             \<lparr>seqFrom = startFrame (timeline ss ! index),
              seqDurationInFrames = durationInFrames (timeline ss ! index),
              seqChild = SceneComponent scene index bg\<rparr>)
           (zip [0 ..< length ss] ss))"
    unfolding map_map
    by (rule map_cong [OF refl]) (auto simp: placementAt_def length_timeline dest: index_in_zip)
  then show ?thesis
    unfolding visualTrack_def by (simp only: collect_map_Some)
qed

lemma audioTrack_eq:
  "audioTrack ss =
     Some (map (\<lambda>(index, scene). audioSequence (timeline ss ! index) scene)
             (zip [0 ..< length ss] ss))"
proof -
  have "map (\<lambda>(index, scene).
                (case placementAt (timeline ss) index of
                   None \<Rightarrow> None
                 | Some p \<Rightarrow> Some (audioSequence p scene)))
              (zip [0 ..< length ss] ss)
        = map Some (map (\<lambda>(index, scene). audioSequence (timeline ss ! index) scene)
                      (zip [0 ..< length ss] ss))"
    unfolding map_map
    by (rule map_cong [OF refl]) (auto simp: placementAt_def length_timeline dest: index_in_zip)
  then show ?thesis
    unfolding audioTrack_def by (simp only: collect_map_Some)
qed

lemma timeline_audioUrl_update:
  "timeline (ss[i := (ss ! i)\<lparr>audioUrl := u\<rparr>]) = timeline ss"
proof -
  have "map durationInSeconds (ss[i := (ss ! i)\<lparr>audioUrl := u\<rparr>]) = map durationInSeconds ss"
  proof (cases "i < length ss")
    case True
    then show ?thesis by (intro nth_equalityI) (auto simp: nth_list_update)
  next
    case False
    then have "ss[i := (ss ! i)\<lparr>audioUrl := u\<rparr>] = ss"
      by (intro list_update_beyond) simp
    then show ?thesis by (rule arg_cong)
  qed
  then show ?thesis unfolding timeline_def by (rule timelineFrom_durations_only)
qed

text \<open>
  C8. Neither track throws. The visual sequence of scene i sits at the placement i of
  the timeline; when scene i has a non-empty audioUrl its audio sequence has the same
  start frame and the same duration as the visual one; a scene without audioUrl has no
  audio sequence, and setting or removing the audioUrl of any scene leaves the whole
  timeline as it is.
\<close>

theorem tracks_aligned:
  "\<exists>vs as. visualTrack ss bg = Some vs \<and> audioTrack ss = Some as
     \<and> length vs = length ss \<and> length as = length ss
     \<and> (\<forall>i < length ss.
           seqFrom (vs ! i) = startFrame (timeline ss ! i)
         \<and> seqDurationInFrames (vs ! i) = durationInFrames (timeline ss ! i)
         \<and> (case audioUrl (ss ! i) of
              None \<Rightarrow> as ! i = None
            | Some url \<Rightarrow>
                if url = [] then as ! i = None
                else (\<exists>a. as ! i = Some a \<and> seqFrom a = seqFrom (vs ! i)
                        \<and> seqDurationInFrames a = seqDurationInFrames (vs ! i)
                        \<and> seqChild a = Audio url)))
     \<and> (\<forall>i u. timeline (ss[i := (ss ! i)\<lparr>audioUrl := u\<rparr>]) = timeline ss)"
  by (simp add: visualTrack_eq audioTrack_eq audioSequence_def timeline_audioUrl_update
      split: option.splits)

theorem tracks_aligned_witness:
  "\<exists>vs as. visualTrack [sceneOf [] 5 None, sceneOf [] 3 (Some [0x61])] None = Some vs
     \<and> audioTrack [sceneOf [] 5 None, sceneOf [] 3 (Some [0x61])] = Some as
     \<and> as ! 0 = None
     \<and> seqFrom (vs ! 1) = 135 \<and> seqDurationInFrames (vs ! 1) = 90
     \<and> as ! 1 = Some \<lparr>seqFrom = 135, seqDurationInFrames = 90, seqChild = Audio [0x61]\<rparr>"
  using tracks_aligned [of "[sceneOf [] 5 None, sceneOf [] 3 (Some [0x61])]" None]
  by (simp add: visualTrack_eq audioTrack_eq audioSequence_def timeline_def sceneOf_def FPS_def
      TRANSITION_DURATION_IN_FRAMES_def jsTimes_examples upt_rec)


section \<open>Properties of the subtitle timing\<close>

lemma length_layoutChunks: "length (layoutChunks tc d c ts) = length ts"
  by (induction ts arbitrary: c) (simp_all add: Let_def)

lemma layoutChunks_text:
  "k < length ts \<Longrightarrow> chunkText (layoutChunks tc d c ts ! k) = ts ! k"
proof (induction ts arbitrary: c k)
  case Nil
  then show ?case by simp
next
  case (Cons t ts)
  then show ?case by (cases k) (simp_all add: Let_def)
qed

lemma layoutChunks_duration:
  "k < length ts \<Longrightarrow>
     chunkEndFrame (layoutChunks tc d c ts ! k)
       = chunkStartFrame (layoutChunks tc d c ts ! k)
           + real (max (length (ts ! k)) 5) / real (max tc 1) * d"
proof (induction ts arbitrary: c k)
  case Nil
  then show ?case by simp
next
  case (Cons t ts)
  then show ?case by (cases k) (simp_all add: Let_def)
qed

lemma layoutChunks_first: "ts \<noteq> [] \<Longrightarrow> chunkStartFrame (layoutChunks tc d c ts ! 0) = c"
  by (cases ts) (simp_all add: Let_def)

lemma layoutChunks_contiguous:
  "Suc k < length ts \<Longrightarrow>
     chunkStartFrame (layoutChunks tc d c ts ! Suc k) = chunkEndFrame (layoutChunks tc d c ts ! k)"
proof (induction ts arbitrary: c k)
  case Nil
  then show ?case by simp
next
  case (Cons t ts)
  show ?case
  proof (cases k)
    case 0
    with Cons.prems have "ts \<noteq> []" by auto
    with 0 show ?thesis by (simp add: Let_def layoutChunks_first)
  next
    case (Suc j)
    with Cons.prems have "Suc j < length ts" by simp
    from Cons.IH [OF this] Suc show ?thesis by (simp add: Let_def)
  qed
qed

lemma layoutChunks_last_end:
  "ts \<noteq> [] \<Longrightarrow>
     chunkEndFrame (last (layoutChunks tc d c ts))
       = c + real (sum_list (map (\<lambda>t. max (length t) 5) ts)) / real (max tc 1) * d"
proof (induction ts arbitrary: c)
  case Nil
  then show ?case by simp
next
  case (Cons t ts)
  show ?case
  proof (cases "ts = []")
    case True
    then show ?thesis by (simp add: Let_def)
  next
    case False
    then have ne: "layoutChunks tc d (c + real (max (length t) 5) / real (max tc 1) * d) ts \<noteq> []"
      by (cases ts) (simp_all add: Let_def)
    from Cons.IH [OF False] ne show ?thesis
      by (simp add: Let_def add_divide_distrib distrib_right)
  qed
qed

lemma chunks_layout:
  "chunks scene fps =
     layoutChunks (sum_list (map length (splitDialogueIntoChunks (dialogue scene))))
       (durationInSeconds scene * fps - 15) 0 (splitDialogueIntoChunks (dialogue scene))"
  by (simp add: chunks_def Let_def length_concat)

text \<open>
  C2. The timed chunks are the text chunks in order. Chunk k lasts
  max(Lk, 5) / max(totalChars, 1) * (durationInSeconds * fps - 15) frames, where Lk is
  its length and totalChars the sum of the lengths of all chunks. The first chunk starts
  at frame 0 and every next chunk starts where the previous one ends.
\<close>

theorem chunk_timing:
  "length (chunks scene fps) = length (splitDialogueIntoChunks (dialogue scene))
   \<and> (\<forall>k < length (splitDialogueIntoChunks (dialogue scene)).
         chunkText (chunks scene fps ! k) = splitDialogueIntoChunks (dialogue scene) ! k
       \<and> chunkEndFrame (chunks scene fps ! k) - chunkStartFrame (chunks scene fps ! k)
           = real (max (length (splitDialogueIntoChunks (dialogue scene) ! k)) 5)
               / real (max (sum_list (map length (splitDialogueIntoChunks (dialogue scene)))) 1)
               * (durationInSeconds scene * fps - 15))
   \<and> (splitDialogueIntoChunks (dialogue scene) \<noteq> [] \<longrightarrow>
         chunkStartFrame (chunks scene fps ! 0) = 0)
   \<and> (\<forall>k. Suc k < length (splitDialogueIntoChunks (dialogue scene)) \<longrightarrow>
         chunkStartFrame (chunks scene fps ! Suc k) = chunkEndFrame (chunks scene fps ! k))"
  by (simp add: chunks_layout length_layoutChunks layoutChunks_text layoutChunks_duration
      layoutChunks_first layoutChunks_contiguous)

lemmas split_eval =
  splitDialogueIntoChunks_def sentences_def cleanText_def trim_def removeSpeakerPrefix_def
  matchTagColon_def jenba_def aiba_def isColon_def splitAfter_def isSentenceEnd_def
  isClauseSep_def isWhiteSpace_def pushSentence_def pushPart_def

lemma split_greeting:
  "splitDialogueIntoChunks greeting =
     [[0x3053, 0x3093, 0x306B, 0x3061, 0x306F, 0x3002],
      [0x4ECA, 0x65E5, 0x306F, 0x3044, 0x3044, 0x5929, 0x6C17, 0x3067, 0x3059, 0x306D, 0x3002]]"
  by (simp add: greeting_def split_eval)

lemma split_hai: "splitDialogueIntoChunks hai = [hai]"
  by (simp add: hai_def split_eval)

lemma split_konnichiwa: "splitDialogueIntoChunks konnichiwa = [konnichiwa]"
  by (simp add: konnichiwa_def split_eval)

theorem chunk_timing_witness:
  "length (chunks (sceneOf greeting 10 None) 30) = 2
   \<and> chunkStartFrame (chunks (sceneOf greeting 10 None) 30 ! 0) = 0
   \<and> chunkEndFrame (chunks (sceneOf greeting 10 None) 30 ! 0) = 6 / 17 * 285
   \<and> chunkStartFrame (chunks (sceneOf greeting 10 None) 30 ! 1) = 6 / 17 * 285
   \<and> chunkEndFrame (chunks (sceneOf greeting 10 None) 30 ! 1) = 285"
  using chunk_timing [of "sceneOf greeting 10 None" 30]
  by (simp add: chunks_def sceneOf_def split_greeting Let_def)

lemma chunks_last_end:
  assumes "splitDialogueIntoChunks (dialogue scene) \<noteq> []"
  shows "chunkEndFrame (last (chunks scene fps))
     = real (sum_list (map (\<lambda>t. max (length t) 5) (splitDialogueIntoChunks (dialogue scene))))
         / real (max (sum_list (map length (splitDialogueIntoChunks (dialogue scene)))) 1)
         * (durationInSeconds scene * fps - 15)"
  using layoutChunks_last_end [OF assms] by (simp add: chunks_layout)

lemma pos_factor_less: "0 < (q::real) \<Longrightarrow> (0 < q * a) = (0 < a)"
  by (simp add: zero_less_mult_iff)

lemma pos_factor_zero: "0 < (q::real) \<Longrightarrow> (q * a = 0) = (a = 0)"
  by simp

lemma quotient_one: "5 \<le> (n::nat) \<Longrightarrow> real n / real (max n 1) = 1"
  by (simp add: max_def)

lemma chunks_fill_available:
  assumes ne: "splitDialogueIntoChunks (dialogue scene) \<noteq> []"
    and long: "\<forall>t \<in> set (splitDialogueIntoChunks (dialogue scene)). 5 \<le> length t"
  shows "chunkEndFrame (last (chunks scene fps)) = durationInSeconds scene * fps - 15"
proof -
  let ?ts = "splitDialogueIntoChunks (dialogue scene)"
  have w: "map (\<lambda>t. max (length t) 5) ?ts = map length ?ts"
  proof (rule map_cong [OF refl])
    fix t
    assume "t \<in> set ?ts"
    with long have "5 \<le> length t" by blast
    then show "max (length t) 5 = length t" by simp
  qed
  from ne long have "5 \<le> sum_list (map length ?ts)"
    by (cases ?ts) simp_all
  then have "real (sum_list (map length ?ts)) / real (max (sum_list (map length ?ts)) 1) = 1"
    by (rule quotient_one)
  then have one: "real (sum_list (map length ?ts)) / real (max (sum_list (map length ?ts)) 1)
                    * (durationInSeconds scene * fps - 15) = durationInSeconds scene * fps - 15"
    by (simp only: mult_1)
  have "chunkEndFrame (last (chunks scene fps))
          = real (sum_list (map length ?ts)) / real (max (sum_list (map length ?ts)) 1)
              * (durationInSeconds scene * fps - 15)"
    using chunks_last_end [OF ne, of fps] by (simp only: w)
  with one show ?thesis by (simp only:)
qed

text \<open>
  C5. The claim asks for a last chunk that ends by durationInSeconds * fps - 15. The
  durations are weight / totalChars of the available frames, and the weights of chunks
  shorter than 5 code units add up to more than totalChars. A scene of 10 s at 30 frames
  per second whose dialogue is one sentence of 3 code units has 285 frames available,
  and its only chunk ends at frame 5 / 3 * 285 = 475.
\<close>

theorem subtitles_overrun_short_chunk:
  "chunks (sceneOf hai 10 None) 30
     = [\<lparr>chunkText = hai, chunkStartFrame = 0, chunkEndFrame = 475\<rparr>]
   \<and> \<not> chunkEndFrame (last (chunks (sceneOf hai 10 None) 30)) \<le> 10 * 30 - 15"
  by (simp add: chunks_def sceneOf_def split_hai Let_def) (simp add: hai_def)

text \<open>
  C6 as stated fails: a scene of 0.2 s at 30 frames per second has 6 - 15 = -9 frames
  available, and its chunk runs from frame 0 to frame -9.
\<close>

theorem chunk_duration_clamped_counterexample:
  "length (chunks (sceneOf konnichiwa (1/5) None) 30) = 1
   \<and> chunkStartFrame (chunks (sceneOf konnichiwa (1/5) None) 30 ! 0) = 0
   \<and> chunkEndFrame (chunks (sceneOf konnichiwa (1/5) None) 30 ! 0) = - 9
   \<and> \<not> chunkStartFrame (chunks (sceneOf konnichiwa (1/5) None) 30 ! 0)
         < chunkEndFrame (chunks (sceneOf konnichiwa (1/5) None) 30 ! 0)"
  by (simp add: chunks_def sceneOf_def split_konnichiwa Let_def) (simp add: konnichiwa_def)

text \<open>
  C6, as amended. The divisor is max(totalChars, 1), so the factor weight / divisor is
  positive; the available frames durationInSeconds * fps - 15 are not clamped. A chunk
  has endFrame > startFrame exactly when durationInSeconds * fps > 15, and
  endFrame = startFrame exactly when durationInSeconds * fps = 15.
\<close>

theorem chunk_duration_sign:
  "\<forall>k < length (chunks scene fps).
     (\<exists>q > 0. chunkEndFrame (chunks scene fps ! k) - chunkStartFrame (chunks scene fps ! k)
                = q * (durationInSeconds scene * fps - 15)
            \<and> q = real (max (length (chunkText (chunks scene fps ! k))) 5)
                    / real (max (length (concat (map chunkText (chunks scene fps)))) 1))
   \<and> (chunkStartFrame (chunks scene fps ! k) < chunkEndFrame (chunks scene fps ! k))
        = (15 < durationInSeconds scene * fps)
   \<and> (chunkStartFrame (chunks scene fps ! k) = chunkEndFrame (chunks scene fps ! k))
        = (durationInSeconds scene * fps = 15)"
proof (intro allI impI)
  fix k
  assume "k < length (chunks scene fps)"
  let ?ts = "splitDialogueIntoChunks (dialogue scene)"
  let ?q = "real (max (length (?ts ! k)) 5) / real (max (sum_list (map length ?ts)) 1)"
  let ?a = "durationInSeconds scene * fps - 15"
  from \<open>k < length (chunks scene fps)\<close> have k: "k < length ?ts"
    by (simp add: chunks_layout length_layoutChunks)
  have texts: "map chunkText (chunks scene fps) = ?ts"
    by (rule nth_equalityI)
      (simp_all add: chunks_layout length_layoutChunks layoutChunks_text)
  have q: "0 < ?q"
  proof (rule divide_pos_pos)
    have "0 < max (length (?ts ! k)) 5" by (simp add: less_max_iff_disj)
    then show "0 < real (max (length (?ts ! k)) 5)" by (simp only: of_nat_0_less_iff)
    have "0 < max (sum_list (map length ?ts)) 1" by (simp add: less_max_iff_disj)
    then show "0 < real (max (sum_list (map length ?ts)) 1)" by (simp only: of_nat_0_less_iff)
  qed
  have dur: "chunkEndFrame (chunks scene fps ! k) - chunkStartFrame (chunks scene fps ! k) = ?q * ?a"
    using layoutChunks_duration [OF k] by (simp add: chunks_layout)
  have ctext: "chunkText (chunks scene fps ! k) = ?ts ! k"
    using k by (simp add: chunks_layout layoutChunks_text)
  have pos: "(chunkStartFrame (chunks scene fps ! k) < chunkEndFrame (chunks scene fps ! k))
               = (15 < durationInSeconds scene * fps)"
  proof -
    have "(chunkStartFrame (chunks scene fps ! k) < chunkEndFrame (chunks scene fps ! k))
            = (0 < ?q * ?a)"
      using dur by linarith
    also have "\<dots> = (0 < ?a)" using q by (rule pos_factor_less)
    finally show ?thesis by simp
  qed
  have zero: "(chunkStartFrame (chunks scene fps ! k) = chunkEndFrame (chunks scene fps ! k))
               = (durationInSeconds scene * fps = 15)"
  proof -
    have "(chunkStartFrame (chunks scene fps ! k) = chunkEndFrame (chunks scene fps ! k))
            = (?q * ?a = 0)"
      using dur by linarith
    also have "\<dots> = (?a = 0)" using q by (rule pos_factor_zero)
    finally show ?thesis by simp
  qed
  from q dur ctext texts pos zero
  show "(\<exists>q > 0. chunkEndFrame (chunks scene fps ! k) - chunkStartFrame (chunks scene fps ! k)
                = q * (durationInSeconds scene * fps - 15)
            \<and> q = real (max (length (chunkText (chunks scene fps ! k))) 5)
                    / real (max (length (concat (map chunkText (chunks scene fps)))) 1))
   \<and> (chunkStartFrame (chunks scene fps ! k) < chunkEndFrame (chunks scene fps ! k))
        = (15 < durationInSeconds scene * fps)
   \<and> (chunkStartFrame (chunks scene fps ! k) = chunkEndFrame (chunks scene fps ! k))
        = (durationInSeconds scene * fps = 15)"
    by (simp add: length_concat)
qed

theorem chunk_duration_sign_witness:
  "0 < length (chunks (sceneOf konnichiwa 10 None) 30)
   \<and> chunkStartFrame (chunks (sceneOf konnichiwa 10 None) 30 ! 0)
       < chunkEndFrame (chunks (sceneOf konnichiwa 10 None) 30 ! 0)"
proof -
  have len: "0 < length (chunks (sceneOf konnichiwa 10 None) 30)"
    by (simp add: chunks_def sceneOf_def split_konnichiwa Let_def)
  from chunk_duration_sign [of "sceneOf konnichiwa 10 None" 30, rule_format, OF len]
  have "chunkStartFrame (chunks (sceneOf konnichiwa 10 None) 30 ! 0)
          < chunkEndFrame (chunks (sceneOf konnichiwa 10 None) 30 ! 0)"
    by (simp add: sceneOf_def)
  with len show ?thesis by simp
qed


section \<open>Properties of the subtitle splitting\<close>

subsection \<open>The erasure relation\<close>

lemma erasedAfter_keep:
  "erasedAfter (isBoundary c \<or> (z \<and> isWhiteSpace c)) s t \<Longrightarrow> erasedAfter z (c # s) (c # t)"
  by simp

lemma erasedAfter_drop:
  "isWhiteSpace c \<Longrightarrow> erasedAfter True s t \<Longrightarrow> erasedAfter True (c # s) t"
  by simp

lemma erasedAfter_weaken: "erasedAfter z s t \<Longrightarrow> (z \<longrightarrow> z') \<Longrightarrow> erasedAfter z' s t"
proof (induction s arbitrary: z z' t)
  case Nil
  then show ?case by simp
next
  case (Cons c s)
  from Cons.prems(1) consider
      (keep) t' where "t = c # t'" "erasedAfter (isBoundary c \<or> (z \<and> isWhiteSpace c)) s t'"
    | (drop) "z" "isWhiteSpace c" "erasedAfter z s t"
    by (auto split: list.splits)
  then show ?case
  proof cases
    case keep
    from Cons.IH [OF keep(2), of "isBoundary c \<or> (z' \<and> isWhiteSpace c)"] Cons.prems(2)
    have "erasedAfter (isBoundary c \<or> (z' \<and> isWhiteSpace c)) s t'" by blast
    with keep(1) show ?thesis by simp
  next
    case drop
    with Cons.prems(2) have "z'" by simp
    from Cons.IH [OF drop(3), of z'] \<open>z'\<close> have "erasedAfter z' s t" by simp
    with \<open>z'\<close> drop(2) show ?thesis by simp
  qed
qed

lemma erasedAfter_refl: "erasedAfter z s s"
  by (induction s arbitrary: z) simp_all

lemma erasedAfter_append:
  "erasedAfter z s1 t1 \<Longrightarrow> erasedAfter False s2 t2 \<Longrightarrow> erasedAfter z (s1 @ s2) (t1 @ t2)"
proof (induction s1 arbitrary: z t1)
  case Nil
  then show ?case by (auto intro: erasedAfter_weaken)
next
  case (Cons c s1)
  from Cons.prems(1) consider
      (keep) t' where "t1 = c # t'" "erasedAfter (isBoundary c \<or> (z \<and> isWhiteSpace c)) s1 t'"
    | (drop) "z" "isWhiteSpace c" "erasedAfter z s1 t1"
    by (auto split: list.splits)
  then show ?case
  proof cases
    case keep
    from Cons.IH [OF keep(2) Cons.prems(2)] keep(1) show ?thesis by simp
  next
    case drop
    from Cons.IH [OF drop(3) Cons.prems(2)] drop(1,2) show ?thesis by simp
  qed
qed

lemma erasedAfter_trans:
  "erasedAfter z s t \<Longrightarrow> erasedAfter z t u \<Longrightarrow> erasedAfter z s u"
proof (induction s arbitrary: z t u)
  case Nil
  then show ?case by simp
next
  case (Cons c s)
  from Cons.prems(1) consider
      (keep) t' where "t = c # t'" "erasedAfter (isBoundary c \<or> (z \<and> isWhiteSpace c)) s t'"
    | (drop) "z" "isWhiteSpace c" "erasedAfter z s t"
    by (auto split: list.splits)
  then show ?case
  proof cases
    case keep
    from Cons.prems(2) keep(1) consider
        (keep2) u' where "u = c # u'" "erasedAfter (isBoundary c \<or> (z \<and> isWhiteSpace c)) t' u'"
      | (drop2) "z" "isWhiteSpace c" "erasedAfter z t' u"
      by (auto split: list.splits)
    then show ?thesis
    proof cases
      case keep2
      from Cons.IH [OF keep(2) keep2(2)] keep2(1) show ?thesis by simp
    next
      case drop2
      from keep(2) drop2(1,2) have "erasedAfter z s t'" by simp
      from Cons.IH [OF this drop2(3)] drop2(1,2) show ?thesis by simp
    qed
  next
    case drop
    from Cons.IH [OF drop(3) Cons.prems(2)] drop(1,2) show ?thesis by simp
  qed
qed

lemma erasedAfter_skip_whitespace:
  "erasedAfter True (dropWhile isWhiteSpace s) t \<Longrightarrow> erasedAfter True s t"
proof (induction s)
  case Nil
  then show ?case by simp
next
  case (Cons c s)
  show ?case
  proof (cases "isWhiteSpace c")
    case True
    with Cons.prems have "erasedAfter True (dropWhile isWhiteSpace s) t" by simp
    then have "erasedAfter True s t" by (rule Cons.IH)
    with True show ?thesis by (rule erasedAfter_drop)
  next
    case False
    with Cons.prems show ?thesis by simp
  qed
qed

subsection \<open>Splitting only erases whitespace after the class\<close>

lemma splitLoop_Cons:
  "splitLoop P acc prev (c # cs) =
     (if P prev
      then acc # (case dropWhile isWhiteSpace (c # cs) of
                    [] \<Rightarrow> [[]]
                  | d # ds \<Rightarrow> splitLoop P [d] d ds)
      else splitLoop P (acc @ [c]) c cs)"
  by (rule splitLoop.simps(2))

lemma splitLoop_erased:
  "(\<forall>c. P c \<longrightarrow> isBoundary c) \<Longrightarrow> (P prev \<longrightarrow> z) \<Longrightarrow>
     \<exists>r. concat (splitLoop P acc prev s) = acc @ r \<and> erasedAfter z s r"
proof (induction P acc prev s arbitrary: z rule: splitLoop.induct)
  case (1 P acc prev)
  then show ?case by simp
next
  case (2 P acc prev c cs)
  note cls = "2.prems"(1)
  show ?case
  proof (cases "P prev")
    case True
    with "2.prems"(2) have z: "z = True" by simp
    show ?thesis
    proof (cases "dropWhile isWhiteSpace (c # cs)")
      case Nil
      have "erasedAfter True (dropWhile isWhiteSpace (c # cs)) []"
        by (simp only: Nil erasedAfter.simps)
      then have e: "erasedAfter True (c # cs) []"
        by (rule erasedAfter_skip_whitespace)
      have "splitLoop P acc prev (c # cs) = [acc, []]"
        by (simp only: splitLoop_Cons True Nil if_True list.case)
      then have "concat (splitLoop P acc prev (c # cs)) = acc @ []" by simp
      with e show ?thesis unfolding z by (intro exI [of _ "[]"] conjI)
    next
      case (Cons d ds)
      have "P d \<longrightarrow> isBoundary d \<or> (True \<and> isWhiteSpace d)" using cls by blast
      from "2.IH"(1) [OF True Cons cls this]
      obtain r where r: "concat (splitLoop P [d] d ds) = [d] @ r"
        "erasedAfter (isBoundary d \<or> (True \<and> isWhiteSpace d)) ds r"
        by blast
      from r(2) have "erasedAfter True (d # ds) (d # r)" by (rule erasedAfter_keep)
      then have "erasedAfter True (dropWhile isWhiteSpace (c # cs)) (d # r)"
        by (simp only: Cons)
      then have e: "erasedAfter True (c # cs) (d # r)"
        by (rule erasedAfter_skip_whitespace)
      have "splitLoop P acc prev (c # cs) = acc # splitLoop P [d] d ds"
        by (simp only: splitLoop_Cons True Cons if_True list.case)
      then have "concat (splitLoop P acc prev (c # cs)) = acc @ (d # r)"
        using r(1) by (simp only: concat.simps append.simps)
      with e show ?thesis unfolding z by (intro exI [of _ "d # r"] conjI)
    qed
  next
    case False
    have "P c \<longrightarrow> isBoundary c \<or> (z \<and> isWhiteSpace c)" using cls by blast
    from "2.IH"(2) [OF False cls this]
    obtain r where r: "concat (splitLoop P (acc @ [c]) c cs) = (acc @ [c]) @ r"
      "erasedAfter (isBoundary c \<or> (z \<and> isWhiteSpace c)) cs r"
      by blast
    from r(2) have e: "erasedAfter z (c # cs) (c # r)" by (rule erasedAfter_keep)
    have "splitLoop P acc prev (c # cs) = splitLoop P (acc @ [c]) c cs"
      by (simp only: splitLoop_Cons False if_False)
    then have "concat (splitLoop P acc prev (c # cs)) = acc @ (c # r)"
      using r(1) by (simp only: append_assoc append.simps)
    with e show ?thesis by (intro exI [of _ "c # r"] conjI)
  qed
qed

lemma splitAfter_erased:
  assumes cls: "\<forall>c. P c \<longrightarrow> isBoundary c"
  shows "erasedAfter z s (concat (splitAfter P s))"
proof (cases s)
  case Nil
  then show ?thesis by (simp add: splitAfter_def)
next
  case (Cons c cs)
  have "P c \<longrightarrow> isBoundary c \<or> (z \<and> isWhiteSpace c)" using cls by blast
  from splitLoop_erased [OF cls this, of "[c]" cs]
  obtain r where r: "concat (splitLoop P [c] c cs) = [c] @ r"
    "erasedAfter (isBoundary c \<or> (z \<and> isWhiteSpace c)) cs r"
    by blast
  from r(2) have "erasedAfter z (c # cs) (c # r)" by (rule erasedAfter_keep)
  with Cons r(1) show ?thesis by (simp add: splitAfter_def)
qed

subsection \<open>The greedy accumulation keeps every code unit\<close>

lemma concat_filter_nonempty: "concat (filter (\<lambda>s. length s > 0) xs) = concat xs"
  by (induction xs) simp_all

lemma pushPart_long:
  "length (cur @ part) > 30 \<Longrightarrow>
     pushPart (cks, cur) part = ((if cur \<noteq> [] then cks @ [cur] else cks), part)"
  by (simp add: pushPart_def)

lemma pushPart_short:
  "\<not> length (cur @ part) > 30 \<Longrightarrow> pushPart (cks, cur) part = (cks, cur @ part)"
  by (simp add: pushPart_def)

lemma foldl_pushPart_concat:
  "foldl pushPart (cks, cur) parts = (cks', cur') \<Longrightarrow>
     concat cks' @ cur' = concat cks @ cur @ concat parts"
proof (induction parts arbitrary: cks cur)
  case Nil
  then show ?case by simp
next
  case (Cons part parts)
  show ?case
  proof (cases "length (cur @ part) > 30")
    case True
    with Cons.prems
    have "foldl pushPart ((if cur \<noteq> [] then cks @ [cur] else cks), part) parts = (cks', cur')"
      by (simp only: foldl_Cons pushPart_long [OF True])
    from Cons.IH [OF this] show ?thesis by (cases "cur = []") simp_all
  next
    case False
    with Cons.prems have "foldl pushPart (cks, cur @ part) parts = (cks', cur')"
      by (simp only: foldl_Cons pushPart_short [OF False])
    from Cons.IH [OF this] show ?thesis by simp
  qed
qed

lemma foldl_pushPart_nonempty:
  "foldl pushPart (cks, cur) parts = (cks', cur') \<Longrightarrow> [] \<notin> set cks \<Longrightarrow> [] \<notin> set cks'"
proof (induction parts arbitrary: cks cur)
  case Nil
  then show ?case by simp
next
  case (Cons part parts)
  show ?case
  proof (cases "length (cur @ part) > 30")
    case True
    with Cons.prems(1)
    have step: "foldl pushPart ((if cur \<noteq> [] then cks @ [cur] else cks), part) parts = (cks', cur')"
      by (simp only: foldl_Cons pushPart_long [OF True])
    from Cons.prems(2) have "[] \<notin> set (if cur \<noteq> [] then cks @ [cur] else cks)"
      by (cases "cur = []") auto
    with step show ?thesis by (rule Cons.IH)
  next
    case False
    with Cons.prems(1) have "foldl pushPart (cks, cur @ part) parts = (cks', cur')"
      by (simp only: foldl_Cons pushPart_short [OF False])
    from this Cons.prems(2) show ?thesis by (rule Cons.IH)
  qed
qed

text \<open>What one sentence adds to the text of the chunks.\<close>

lemma pushSentence_concat:
  "concat (pushSentence cks sentence) =
     concat cks @ (if length sentence < 25 then sentence
                   else concat (splitAfter isClauseSep sentence))"
proof (cases "length sentence < 25")
  case True
  then show ?thesis by (simp add: pushSentence_def)
next
  case False
  obtain cks' cur' where f: "foldl pushPart (cks, []) (splitAfter isClauseSep sentence) = (cks', cur')"
    by (cases "foldl pushPart (cks, []) (splitAfter isClauseSep sentence)")
  from foldl_pushPart_concat [OF f]
  have "concat cks' @ cur' = concat cks @ concat (splitAfter isClauseSep sentence)" by simp
  with False f show ?thesis by (cases "cur' = []") (simp_all add: pushSentence_def)
qed

lemma pushSentence_nonempty:
  assumes "[] \<notin> set cks" and "sentence \<noteq> []"
  shows "[] \<notin> set (pushSentence cks sentence)"
proof (cases "length sentence < 25")
  case True
  with assms show ?thesis by (auto simp: pushSentence_def)
next
  case False
  obtain cks' cur' where f: "foldl pushPart (cks, []) (splitAfter isClauseSep sentence) = (cks', cur')"
    by (cases "foldl pushPart (cks, []) (splitAfter isClauseSep sentence)")
  from foldl_pushPart_nonempty [OF f assms(1)] have "[] \<notin> set cks'" .
  with False f show ?thesis by (cases "cur' = []") (auto simp: pushSentence_def)
qed

lemma foldl_pushSentence_nonempty:
  "[] \<notin> set cks \<Longrightarrow> [] \<notin> set ss \<Longrightarrow> [] \<notin> set (foldl pushSentence cks ss)"
proof (induction ss arbitrary: cks)
  case Nil
  then show ?case by simp
next
  case (Cons s ss)
  from Cons.prems have "[] \<notin> set (pushSentence cks s)"
    by (intro pushSentence_nonempty) auto
  moreover from Cons.prems(2) have "[] \<notin> set ss" by auto
  ultimately have "[] \<notin> set (foldl pushSentence (pushSentence cks s) ss)" by (rule Cons.IH)
  then show ?case by simp
qed

lemma clause_is_boundary: "\<forall>c. isClauseSep c \<longrightarrow> isBoundary c"
  by (simp add: isBoundary_def)

lemma sentence_end_is_boundary: "\<forall>c. isSentenceEnd c \<longrightarrow> isBoundary c"
  by (simp add: isBoundary_def)

lemma foldl_pushSentence_erased:
  "\<exists>r. concat (foldl pushSentence cks ss) = concat cks @ r \<and> erasedAfter False (concat ss) r"
proof (induction ss arbitrary: cks)
  case Nil
  then show ?case by simp
next
  case (Cons s ss)
  let ?g = "if length s < 25 then s else concat (splitAfter isClauseSep s)"
  have g: "erasedAfter False s ?g"
    by (simp add: erasedAfter_refl splitAfter_erased [OF clause_is_boundary])
  from Cons.IH [of "pushSentence cks s"]
  obtain r where r: "concat (foldl pushSentence (pushSentence cks s) ss)
                       = concat (pushSentence cks s) @ r"
    "erasedAfter False (concat ss) r"
    by blast
  from g r(2) have e: "erasedAfter False (concat (s # ss)) (?g @ r)"
    unfolding concat.simps by (rule erasedAfter_append)
  have "concat (foldl pushSentence cks (s # ss)) = concat cks @ (?g @ r)"
    using r(1) by (simp only: foldl_Cons pushSentence_concat append_assoc)
  with e show ?case by (intro exI [of _ "?g @ r"] conjI)
qed

text \<open>
  C4. The texts of the chunks, put together in order, are the dialogue without its speaker
  prefix and without leading and trailing whitespace, from which nothing but whitespace
  was deleted, and that only in runs of whitespace directly after a sentence end or a
  clause separator. No other code unit is dropped, added or moved.
\<close>

theorem chunks_reconstruct_dialogue:
  "erasedAfter False (trim (removeSpeakerPrefix t)) (concat (splitDialogueIntoChunks t))"
proof -
  have "erasedAfter False (cleanText t) (concat (splitAfter isSentenceEnd (cleanText t)))"
    by (rule splitAfter_erased [OF sentence_end_is_boundary])
  then have first: "erasedAfter False (cleanText t) (concat (sentences t))"
    by (simp only: sentences_def concat_filter_nonempty)
  from foldl_pushSentence_erased [of "[]" "sentences t"]
  have second: "erasedAfter False (concat (sentences t)) (concat (splitDialogueIntoChunks t))"
    by (simp add: splitDialogueIntoChunks_def)
  from first second have "erasedAfter False (cleanText t) (concat (splitDialogueIntoChunks t))"
    by (rule erasedAfter_trans)
  then show ?thesis by (simp only: cleanText_def)
qed



lemma split_spaced: "splitDialogueIntoChunks spaced = [konnichiwa, hai]"
  by (simp add: spaced_def konnichiwa_def hai_def split_eval)

lemma split_longSentence:
  "splitDialogueIntoChunks longSentence =
     [[0x61, 0x61, 0x61, 0x61, 0x61, 0x61, 0x61, 0x61, 0x61, 0x61, 0x61, 0x61, 0x61, 0x61, 0x2C,
       0x62, 0x62, 0x62, 0x62, 0x62, 0x62, 0x62, 0x62, 0x62, 0x62, 0x62, 0x62, 0x62, 0x62, 0x2C],
      [0x63, 0x63, 0x63, 0x63, 0x63, 0x3002]]"
  by (simp add: longSentence_def split_eval)

theorem chunks_reconstruct_dialogue_witness:
  "trim (removeSpeakerPrefix spaced) = konnichiwa @ [0x0020, 0x3000] @ hai
   \<and> concat (splitDialogueIntoChunks spaced) = konnichiwa @ hai
   \<and> erasedAfter False (trim (removeSpeakerPrefix spaced)) (concat (splitDialogueIntoChunks spaced))"
proof -
  have "trim (removeSpeakerPrefix spaced) = konnichiwa @ [0x0020, 0x3000] @ hai"
    by (simp add: spaced_def konnichiwa_def hai_def trim_def removeSpeakerPrefix_def
        matchTagColon_def jenba_def aiba_def isColon_def isWhiteSpace_def)
  moreover have "concat (splitDialogueIntoChunks spaced) = konnichiwa @ hai"
    by (simp add: split_spaced)
  ultimately show ?thesis using chunks_reconstruct_dialogue [of spaced] by simp
qed

subsection \<open>Dialogues without text\<close>

lemma blank_no_chunks: "cleanText t = [] \<Longrightarrow> splitDialogueIntoChunks t = []"
  by (simp add: splitDialogueIntoChunks_def sentences_def splitAfter_def)

lemma trim_whitespace:
  assumes "\<forall>c \<in> set ws. isWhiteSpace c"
  shows "trim ws = []"
proof -
  from assms have blank: "dropWhile isWhiteSpace ws = []"
    by (simp only: dropWhile_eq_Nil_conv)
  show ?thesis unfolding trim_def blank by simp
qed

lemma remove_jenba: "isColon sep \<Longrightarrow> removeSpeakerPrefix (jenba @ sep # ws) = ws"
  by (simp add: removeSpeakerPrefix_def matchTagColon_def jenba_def)

lemma remove_aiba: "isColon sep \<Longrightarrow> removeSpeakerPrefix (aiba @ sep # ws) = ws"
  by (simp add: removeSpeakerPrefix_def matchTagColon_def jenba_def aiba_def)

lemma remove_blank:
  assumes "\<forall>c \<in> set ws. isWhiteSpace c"
  shows "removeSpeakerPrefix ws = ws"
proof (cases ws)
  case Nil
  then show ?thesis by (simp add: removeSpeakerPrefix_def matchTagColon_def jenba_def aiba_def)
next
  case (Cons c cs)
  with assms have w: "isWhiteSpace c" by simp
  have "\<not> isWhiteSpace 0x3058" "\<not> isWhiteSpace 0x3042"
    by (simp_all add: isWhiteSpace_def)
  with w have "c \<noteq> 0x3058" "c \<noteq> 0x3042" by auto
  with Cons show ?thesis
    by (simp add: removeSpeakerPrefix_def matchTagColon_def jenba_def aiba_def)
qed

lemma sentences_nonempty: "[] \<notin> set (sentences t)"
  by (simp add: sentences_def)

text \<open>
  C9 as stated fails for a speaker name after whitespace: the pattern is anchored at the
  start of the text, so the name and its colon stay and are emitted as a chunk.
\<close>

theorem chunks_of_blank_dialogue_counterexample:
  "splitDialogueIntoChunks leadingSpaceName = [[0x3058, 0x3047, 0x3093, 0x3070, 0x003A]]
   \<and> splitDialogueIntoChunks leadingSpaceName \<noteq> []"
  by (simp add: leadingSpaceName_def split_eval)

text \<open>
  C9, as amended. The empty dialogue, a dialogue of whitespace only, and a dialogue that
  starts with one of the two speaker names, directly followed by a colon (ASCII or
  full-width) and then nothing but whitespace, have no chunks. For every dialogue, no
  chunk is the empty string.
\<close>

theorem chunks_of_blank_dialogue:
  "((t = [] \<or> (\<forall>c \<in> set t. isWhiteSpace c)
      \<or> (\<exists>tag sep ws. (tag = jenba \<or> tag = aiba) \<and> isColon sep
            \<and> (\<forall>c \<in> set ws. isWhiteSpace c) \<and> t = tag @ sep # ws))
     \<longrightarrow> splitDialogueIntoChunks t = [])
   \<and> (\<forall>chunk \<in> set (splitDialogueIntoChunks t). chunk \<noteq> [])"
proof (intro conjI impI)
  assume "t = [] \<or> (\<forall>c \<in> set t. isWhiteSpace c)
      \<or> (\<exists>tag sep ws. (tag = jenba \<or> tag = aiba) \<and> isColon sep
            \<and> (\<forall>c \<in> set ws. isWhiteSpace c) \<and> t = tag @ sep # ws)"
  then consider (blank) "\<forall>c \<in> set t. isWhiteSpace c"
    | (tagged) tag sep ws where "tag = jenba \<or> tag = aiba" "isColon sep"
        "\<forall>c \<in> set ws. isWhiteSpace c" "t = tag @ sep # ws"
    by auto
  then have "cleanText t = []"
  proof cases
    case blank
    then show ?thesis by (simp add: cleanText_def remove_blank trim_whitespace)
  next
    case tagged
    from tagged(1,2,4) have "removeSpeakerPrefix t = ws"
      by (auto simp: remove_jenba remove_aiba)
    with tagged(3) show ?thesis by (simp add: cleanText_def trim_whitespace)
  qed
  then show "splitDialogueIntoChunks t = []" by (rule blank_no_chunks)
next
  have "[] \<notin> set (foldl pushSentence [] (sentences t))"
    by (rule foldl_pushSentence_nonempty) (simp_all add: sentences_nonempty)
  then show "\<forall>chunk \<in> set (splitDialogueIntoChunks t). chunk \<noteq> []"
    by (auto simp: splitDialogueIntoChunks_def)
qed

theorem chunks_of_blank_dialogue_witness:
  "splitDialogueIntoChunks nameOnly = []
   \<and> [] \<notin> set (splitDialogueIntoChunks longSentence)"
proof -
  have "\<exists>tag sep ws. (tag = jenba \<or> tag = aiba) \<and> isColon sep
            \<and> (\<forall>c \<in> set ws. isWhiteSpace c) \<and> nameOnly = tag @ sep # ws"
    by (intro exI [of _ aiba] exI [of _ "0xFF1A"] exI [of _ "[0x0020, 0x3000]"])
      (simp add: nameOnly_def aiba_def isColon_def isWhiteSpace_def)
  with chunks_of_blank_dialogue [of nameOnly] have "splitDialogueIntoChunks nameOnly = []"
    by blast
  with chunks_of_blank_dialogue [of longSentence] show ?thesis by blast
qed

end
